theory Spec2Isabelle
  imports
    Main
    "HOL-Library.Char_ord"
    "HOL-Library.List_Lexorder"
    "HOL-Library.AList"
    "HOL-Library.Sublist"
    "HOL-Library.Multiset"
begin

section \<open>Data model\<close>

text \<open>
  A row of the table \<^verbatim>\<open>cloud_sync_log\<close>, as the handlers of \<^verbatim>\<open>bot.py\<close> read it.
  \<^item> \<open>order_id\<close> is the key \<^verbatim>\<open>event['order_id']\<close>;
  \<^item> \<open>order_number\<close> is optional (\<^verbatim>\<open>event.get('order_number', order_id)\<close>);
  \<^item> \<open>created_at\<close> is an ISO-8601 text: Python compares it as a string
    (\<^verbatim>\<open>event['created_at'] > orders_dict[order_id]['created_at']\<close>), which is the
    lexicographic order on \<open>string\<close> used here;
  \<^item> \<open>event_data\<close> is the decoded payload, a key-value list (a payload that does not
    decode is the empty list, as the handlers' fallback \<^verbatim>\<open>event_data = {}\<close>).
\<close>

record event =
  order_id :: nat
  order_number :: "string option"
  event_type :: string
  created_at :: string
  event_data :: "(string \<times> string) list"

text \<open>The store's \<^verbatim>\<open>event_data->>status\<close>: the text of the payload's field, or NULL.\<close>

definition payload_status :: "event \<Rightarrow> string option" where
  "payload_status e = map_of (event_data e) ''status''"

text \<open>
  A Python \<^verbatim>\<open>dict\<close> keeps its keys in insertion order, and assigning to a key that is
  present keeps the key's position: this is an association list under \<open>AList.update\<close>.
\<close>

type_synonym orders_dict = "(nat \<times> event) list"

section \<open>Active orders: the grouping loop of \<^verbatim>\<open>show_orders\<close>\<close>

text \<open>
  \<^verbatim>\<open>
  for event in response.data:
      order_id = event['order_id']
      if order_id not in orders_dict:
          orders_dict[order_id] = event
      elif event['created_at'] > orders_dict[order_id]['created_at']:
          orders_dict[order_id] = event
  \<close>
\<close>

definition group_step :: "orders_dict \<Rightarrow> event \<Rightarrow> orders_dict" where
  "group_step d e =
     (case map_of d (order_id e) of
        None \<Rightarrow> AList.update (order_id e) e d
      | Some cur \<Rightarrow>
          if created_at e > created_at cur then AList.update (order_id e) e d else d)"

fun group_loop :: "orders_dict \<Rightarrow> event list \<Rightarrow> orders_dict" where
  "group_loop d [] = d"
| "group_loop d (e # es) = group_loop (group_step d e) es"

definition group_orders :: "event list \<Rightarrow> orders_dict" where
  "group_orders es = group_loop [] es"

text \<open>
  The handlers reply to the requester with \<^verbatim>\<open>update.message.reply_text\<close>. The model
  records what a handler replies as a value: the kind of message and the data its text is
  rendered from (the Russian wording and the Markdown layout of the text are not
  modelled, nor is the delivery of a reply).
\<close>

datatype status_line =
    Status_header string
  | Status_row nat event
  | Status_more nat

datatype reply =
    Welcome
  | No_active_orders
  | Orders_listing "(nat \<times> nat \<times> event) list"
  | Data_error
  | No_completed_orders
  | Completed_listing "(nat \<times> nat \<times> event) list"
  | Status_usage
  | Status_not_found string
  | Status_listing "status_line list"
  | Filter_error
  | Admin_only
  | Stats_report nat nat nat nat "(string \<times> nat) list"
  | Stats_error
  | Notify_usage
  | No_registered_users
  | Notify_tally nat nat
  | Notify_error

text \<open>
  Every call of the store's client (\<^verbatim>\<open>.execute()\<close>) and of the messaging gateway
  (\<^verbatim>\<open>context.bot.send_message\<close>) either returns or raises; the handlers catch the
  exception with \<^verbatim>\<open>except Exception\<close>. Which of the two happens is an input of the model.
\<close>

datatype outcome = Returns | Raises

text \<open>
  The store's \<^verbatim>\<open>.gte("created_at", since).order("created_at", desc=True)\<close>, on the same
  order of timestamps as Python's. The store leaves the order of rows with equal
  \<open>created_at\<close> open; the model fixes one.
\<close>

definition window_desc :: "string \<Rightarrow> (event \<Rightarrow> bool) \<Rightarrow> event list \<Rightarrow> event list" where
  "window_desc since cond log =
     rev (sort_key created_at (filter (\<lambda>e. cond e \<and> since \<le> created_at e) log))"

text \<open>
  \<^verbatim>\<open>
  response = supabase.table("cloud_sync_log").select("*")
      .neq("event_type", "ORDER_DELETED").gte("created_at", thirty_days_ago)
      .order("created_at", desc=True).execute()
  \<close>
\<close>

definition fetch_active :: "string \<Rightarrow> event list \<Rightarrow> event list" where
  "fetch_active thirty_days_ago log =
     window_desc thirty_days_ago (\<lambda>e. event_type e \<noteq> ''ORDER_DELETED'') log"

text \<open>
  \<^verbatim>\<open>show_orders\<close>, from the response of the fetch on: an exception of the fetch is
  \<open>Inl\<close>. The listing enumerates \<^verbatim>\<open>orders_dict.items()\<close> from 1; the handler sends
  its text whole, or in parts of 4000 characters when it is longer.
\<close>

definition show_orders :: "unit + event list \<Rightarrow> reply" where
  "show_orders response =
     (case response of
        Inl _ \<Rightarrow> Data_error
      | Inr data \<Rightarrow>
          if data = [] then No_active_orders
          else Orders_listing (enumerate 1 (group_orders data)))"

section \<open>Completed orders: \<^verbatim>\<open>show_completed_orders\<close>\<close>

definition fetch_completed :: "string \<Rightarrow> event list \<Rightarrow> event list" where
  "fetch_completed thirty_days_ago log =
     window_desc thirty_days_ago (\<lambda>e. payload_status e = Some ''Completed'') log"

text \<open>
  \<^verbatim>\<open>
  for event in response.data:
      order_id = event['order_id']
      if order_id not in completed_orders:
          completed_orders[order_id] = event
  \<close>
\<close>

definition completed_step :: "orders_dict \<Rightarrow> event \<Rightarrow> orders_dict" where
  "completed_step d e =
     (if map_of d (order_id e) = None then AList.update (order_id e) e d else d)"

fun completed_loop :: "orders_dict \<Rightarrow> event list \<Rightarrow> orders_dict" where
  "completed_loop d [] = d"
| "completed_loop d (e # es) = completed_loop (completed_step d e) es"

definition completed_orders :: "event list \<Rightarrow> orders_dict" where
  "completed_orders es = completed_loop [] es"

definition show_completed_orders :: "unit + event list \<Rightarrow> reply" where
  "show_completed_orders response =
     (case response of
        Inl _ \<Rightarrow> Data_error
      | Inr data \<Rightarrow>
          if data = [] then No_completed_orders
          else Completed_listing (enumerate 1 (completed_orders data)))"

section \<open>Status filter: \<^verbatim>\<open>filter_by_status\<close>\<close>

text \<open>
  The filter is the store's operator \<^verbatim>\<open>like\<close> on the pattern
  \<^verbatim>\<open>f"%{status_query}%"\<close>. The REST layer of the store reads \<^verbatim>\<open>*\<close> in a
  \<^verbatim>\<open>like\<close> pattern as \<^verbatim>\<open>%\<close>; SQL's \<^verbatim>\<open>LIKE\<close> is case-sensitive, \<^verbatim>\<open>%\<close> matches
  any run of characters, \<^verbatim>\<open>_\<close> any one character, and a backslash takes the next
  character of the pattern literally.
\<close>

definition rest_pattern :: "string \<Rightarrow> string" where
  "rest_pattern p = map (\<lambda>c. if c = CHR ''*'' then CHR ''%'' else c) p"

fun like_match :: "string \<Rightarrow> string \<Rightarrow> bool" where
  "like_match [] t = (t = [])"
| "like_match (p # ps) t =
     (if p = CHR ''%'' then
        like_match ps t \<or> (case t of [] \<Rightarrow> False | c # cs \<Rightarrow> like_match (p # ps) cs)
      else if p = CHR ''_'' then
        (case t of [] \<Rightarrow> False | c # cs \<Rightarrow> like_match ps cs)
      else if p = CHR 0x5C then
        (case ps of
           [] \<Rightarrow> False
         | q # qs \<Rightarrow> (case t of [] \<Rightarrow> False | c # cs \<Rightarrow> c = q \<and> like_match qs cs))
      else
        (case t of [] \<Rightarrow> False | c # cs \<Rightarrow> c = p \<and> like_match ps cs))"

definition status_like :: "string \<Rightarrow> event \<Rightarrow> bool" where
  "status_like status_query e =
     (case payload_status e of
        None \<Rightarrow> False
      | Some st \<Rightarrow> like_match (rest_pattern (''%'' @ status_query @ ''%'')) st)"

definition fetch_status :: "string \<Rightarrow> string \<Rightarrow> event list \<Rightarrow> event list" where
  "fetch_status status_query thirty_days_ago log =
     window_desc thirty_days_ago (status_like status_query) log"

text \<open>\<^verbatim>\<open>" ".join(context.args)\<close>\<close>

fun join_args :: "string list \<Rightarrow> string" where
  "join_args [] = []"
| "join_args [a] = a"
| "join_args (a # b # bs) = a @ '' '' @ join_args (b # bs)"

text \<open>
  \<^verbatim>\<open>
  message_lines = [header]
  for idx, event in enumerate(response.data[:20], 1):
      message_lines.append(order_info)
  if len(response.data) > 20:
      message_lines.append(f"... {len(response.data) - 20} ...")
  \<close>
\<close>

definition status_lines :: "string \<Rightarrow> event list \<Rightarrow> status_line list" where
  "status_lines status_query data =
     Status_header status_query
       # map (\<lambda>(idx, e). Status_row idx e) (enumerate 1 (take 20 data))
       @ (if length data > 20 then [Status_more (length data - 20)] else [])"

definition filter_by_status :: "string list \<Rightarrow> unit + event list \<Rightarrow> reply" where
  "filter_by_status args response =
     (if args = [] then Status_usage
      else
        (case response of
           Inl _ \<Rightarrow> Filter_error
         | Inr data \<Rightarrow>
             if data = [] then Status_not_found (join_args args)
             else Status_listing (status_lines (join_args args) data)))"

section \<open>Registry, gateway and task store\<close>

text \<open>
  A row of \<^verbatim>\<open>bot_users\<close>, the caller of a command (\<^verbatim>\<open>update.effective_user\<close>), and a
  row of \<^verbatim>\<open>notifications_queue\<close> (its keys are \<^verbatim>\<open>id\<close>, \<^verbatim>\<open>telegram_id\<close>,
  \<^verbatim>\<open>message_text\<close>, \<^verbatim>\<open>status\<close>, \<^verbatim>\<open>created_at\<close>, \<^verbatim>\<open>sent_at\<close>).
\<close>

record bot_user =
  telegram_id :: nat
  username :: "string option"
  first_name :: string
  last_name :: "string option"
  is_admin :: bool

record effective_user =
  user_id :: nat
  user_username :: "string option"
  user_first_name :: string
  user_last_name :: "string option"

record notification =
  notif_id :: nat
  notif_telegram_id :: nat
  message_text :: string
  notif_status :: string
  notif_created_at :: string
  sent_at :: "string option"

text \<open>
  What a handler does to the outside, in the order it does it: the calls of the store
  (also those that raise), the sends through the gateway (also those that raise), the
  errors it logs and its replies.
\<close>

datatype table = Bot_users | Cloud_sync_log | Notifications_queue

datatype sent_text = Broadcast_text string | Task_text string

datatype effect =
    Db_select table
  | Db_insert table
  | Db_update table nat
  | Bot_send nat sent_text
  | Log_error
  | Reply reply

section \<open>Registration: \<^verbatim>\<open>start\<close>\<close>

definition user_data :: "nat list \<Rightarrow> effective_user \<Rightarrow> bot_user" where
  "user_data admin_ids user =
     \<lparr>telegram_id = user_id user, username = user_username user,
      first_name = user_first_name user, last_name = user_last_name user,
      is_admin = (user_id user \<in> set admin_ids)\<rparr>"

text \<open>
  \<^verbatim>\<open>
  try:
      response = supabase.table("bot_users").select("*").eq("telegram_id", telegram_id).execute()
      if len(response.data) == 0:
          supabase.table("bot_users").insert(user_data).execute()
  except Exception as e:
      logger.error(...)
  await update.message.reply_text(welcome_text)
  \<close>
  The result is the registry after the call and what the handler did (the line
  \<^verbatim>\<open>logger.info\<close> writes after an insert is left out).
\<close>

definition start ::
  "nat list \<Rightarrow> effective_user \<Rightarrow> outcome \<Rightarrow> outcome \<Rightarrow> bot_user list
     \<Rightarrow> bot_user list \<times> effect list" where
  "start admin_ids user select_outcome insert_outcome users =
     (case select_outcome of
        Raises \<Rightarrow> (users, [Db_select Bot_users, Log_error, Reply Welcome])
      | Returns \<Rightarrow>
          if length (filter (\<lambda>r. telegram_id r = user_id user) users) = 0 then
            (case insert_outcome of
               Raises \<Rightarrow>
                 (users, [Db_select Bot_users, Db_insert Bot_users, Log_error, Reply Welcome])
             | Returns \<Rightarrow>
                 (users @ [user_data admin_ids user],
                  [Db_select Bot_users, Db_insert Bot_users, Reply Welcome]))
          else (users, [Db_select Bot_users, Reply Welcome]))"

text \<open>A run of \<^verbatim>\<open>/start\<close> commands: each with its caller and the outcomes of its two calls.\<close>

fun start_run ::
  "nat list \<Rightarrow> (effective_user \<times> outcome \<times> outcome) list \<Rightarrow> bot_user list \<Rightarrow> bot_user list" where
  "start_run admin_ids [] users = users"
| "start_run admin_ids ((user, sel, ins) # calls) users =
     start_run admin_ids calls (fst (start admin_ids user sel ins users))"

section \<open>Statistics: \<^verbatim>\<open>show_stats\<close>\<close>

text \<open>
  \<^verbatim>\<open>
  weekly_stats = {}
  for event in weekly_response.data:
      event_type = event['event_type']
      weekly_stats[event_type] = weekly_stats.get(event_type, 0) + 1
  ... sorted(weekly_stats.items(), key=lambda x: x[1], reverse=True)[:10]
  \<close>
  Python's \<^verbatim>\<open>sorted\<close> is stable, also with \<^verbatim>\<open>reverse=True\<close>.
\<close>

definition count_step :: "(string \<times> nat) list \<Rightarrow> event \<Rightarrow> (string \<times> nat) list" where
  "count_step d e =
     AList.update (event_type e)
       ((case map_of d (event_type e) of None \<Rightarrow> 0 | Some c \<Rightarrow> c) + 1) d"

definition weekly_stats :: "event list \<Rightarrow> (string \<times> nat) list" where
  "weekly_stats weekly = foldl count_step [] weekly"

definition top_stats :: "(string \<times> nat) list \<Rightarrow> (string \<times> nat) list" where
  "top_stats d = take 10 (sort_key (\<lambda>(t, c). - int c) d)"

definition show_stats ::
  "nat list \<Rightarrow> nat \<Rightarrow> outcome \<Rightarrow> outcome \<Rightarrow> outcome \<Rightarrow> string
     \<Rightarrow> bot_user list \<Rightarrow> event list \<Rightarrow> effect list" where
  "show_stats admin_ids caller users_outcome events_outcome weekly_outcome week_ago users log =
     (if caller \<notin> set admin_ids then [Reply Admin_only]
      else
        (case users_outcome of
           Raises \<Rightarrow> [Db_select Bot_users, Log_error, Reply Stats_error]
         | Returns \<Rightarrow>
          (case events_outcome of
             Raises \<Rightarrow>
               [Db_select Bot_users, Db_select Cloud_sync_log, Log_error, Reply Stats_error]
           | Returns \<Rightarrow>
            (case weekly_outcome of
               Raises \<Rightarrow>
                 [Db_select Bot_users, Db_select Cloud_sync_log, Db_select Cloud_sync_log,
                  Log_error, Reply Stats_error]
             | Returns \<Rightarrow>
                 (let weekly = filter (\<lambda>e. week_ago \<le> created_at e) log in
                  [Db_select Bot_users, Db_select Cloud_sync_log, Db_select Cloud_sync_log,
                   Reply (Stats_report (length users) (length admin_ids) (length log)
                            (length weekly) (top_stats (weekly_stats weekly)))])))))"

section \<open>Broadcast: \<^verbatim>\<open>send_notification\<close>\<close>

text \<open>
  \<^verbatim>\<open>
  for user in users_response.data:
      try:
          await context.bot.send_message(chat_id=user['telegram_id'], text=..., ...)
          sent_count += 1
      except Exception as e:
          logger.error(...)
          failed_count += 1
  \<close>
  \<open>send i\<close> is the outcome of the gateway at the \<open>i\<close>-th iteration of the loop.
\<close>

fun broadcast_loop ::
  "(nat \<Rightarrow> outcome) \<Rightarrow> string \<Rightarrow> nat \<Rightarrow> bot_user list \<Rightarrow> nat \<times> nat \<times> effect list
     \<Rightarrow> nat \<times> nat \<times> effect list" where
  "broadcast_loop send text i [] acc = acc"
| "broadcast_loop send text i (u # us) (sent_count, failed_count, tr) =
     (case send i of
        Returns \<Rightarrow>
          broadcast_loop send text (Suc i) us
            (sent_count + 1, failed_count,
             tr @ [Bot_send (telegram_id u) (Broadcast_text text)])
      | Raises \<Rightarrow>
          broadcast_loop send text (Suc i) us
            (sent_count, failed_count + 1,
             tr @ [Bot_send (telegram_id u) (Broadcast_text text), Log_error]))"

definition send_notification ::
  "nat list \<Rightarrow> nat \<Rightarrow> string list \<Rightarrow> outcome \<Rightarrow> (nat \<Rightarrow> outcome) \<Rightarrow> bot_user list
     \<Rightarrow> effect list" where
  "send_notification admin_ids caller args select_outcome send users =
     (if caller \<notin> set admin_ids then [Reply Admin_only]
      else if args = [] then [Reply Notify_usage]
      else
        (case select_outcome of
           Raises \<Rightarrow> [Db_select Bot_users, Log_error, Reply Notify_error]
         | Returns \<Rightarrow>
             if users = [] then [Db_select Bot_users, Reply No_registered_users]
             else
               (case broadcast_loop send (join_args args) 0 users (0, 0, [Db_select Bot_users]) of
                  (sent_count, failed_count, tr) \<Rightarrow>
                    tr @ [Reply (Notify_tally sent_count failed_count)])))"

section \<open>Queued delivery: \<^verbatim>\<open>check_notifications\<close>\<close>

text \<open>
  \<^verbatim>\<open>.eq("status", "pending").order("created_at").limit(10)\<close>; the order of rows with
  equal \<open>created_at\<close> is the store's choice, the model keeps the table's.
\<close>

definition fetch_pending :: "notification list \<Rightarrow> notification list" where
  "fetch_pending queue =
     take 10 (sort_key notif_created_at (filter (\<lambda>n. notif_status n = ''pending'') queue))"

text \<open>\<^verbatim>\<open>.update({"status": "sent", "sent_at": now}).eq("id", notification['id'])\<close>\<close>

definition mark_sent :: "nat \<Rightarrow> string \<Rightarrow> notification list \<Rightarrow> notification list" where
  "mark_sent i now queue =
     map (\<lambda>r. if notif_id r = i then r\<lparr>notif_status := ''sent'', sent_at := Some now\<rparr> else r) queue"

text \<open>
  \<^verbatim>\<open>
  for notification in response.data:
      try:
          await context.bot.send_message(chat_id=notification['telegram_id'], ...)
          supabase.table("notifications_queue").update({...}).eq("id", notification['id']).execute()
      except Exception as e:
          logger.error(...)
  \<close>
  \<open>send i\<close> and \<open>upd i\<close> are the outcomes of the gateway and of the store at the
  \<open>i\<close>-th iteration, \<open>now i\<close> is \<^verbatim>\<open>datetime.now().isoformat()\<close> there.
\<close>

fun dispatch_loop ::
  "(nat \<Rightarrow> outcome) \<Rightarrow> (nat \<Rightarrow> outcome) \<Rightarrow> (nat \<Rightarrow> string) \<Rightarrow> nat \<Rightarrow> notification list
     \<Rightarrow> notification list \<times> effect list \<Rightarrow> notification list \<times> effect list" where
  "dispatch_loop send upd now i [] acc = acc"
| "dispatch_loop send upd now i (n # ns) (queue, tr) =
     (case send i of
        Raises \<Rightarrow>
          dispatch_loop send upd now (Suc i) ns
            (queue, tr @ [Bot_send (notif_telegram_id n) (Task_text (message_text n)), Log_error])
      | Returns \<Rightarrow>
          (case upd i of
             Raises \<Rightarrow>
               dispatch_loop send upd now (Suc i) ns
                 (queue,
                  tr @ [Bot_send (notif_telegram_id n) (Task_text (message_text n)),
                        Db_update Notifications_queue (notif_id n), Log_error])
           | Returns \<Rightarrow>
               dispatch_loop send upd now (Suc i) ns
                 (mark_sent (notif_id n) (now i) queue,
                  tr @ [Bot_send (notif_telegram_id n) (Task_text (message_text n)),
                        Db_update Notifications_queue (notif_id n)])))"

definition check_notifications ::
  "outcome \<Rightarrow> (nat \<Rightarrow> outcome) \<Rightarrow> (nat \<Rightarrow> outcome) \<Rightarrow> (nat \<Rightarrow> string) \<Rightarrow> notification list
     \<Rightarrow> notification list \<times> effect list" where
  "check_notifications fetch_outcome send upd now queue =
     (case fetch_outcome of
        Raises \<Rightarrow> (queue, [Db_select Notifications_queue, Log_error])
      | Returns \<Rightarrow>
          dispatch_loop send upd now 0 (fetch_pending queue)
            (queue, [Db_select Notifications_queue]))"

section \<open>Predicates of the proofs and example data\<close>

text \<open>
  \<open>kept es oid e\<close>: \<open>e\<close> is an event of order \<open>oid\<close> in \<open>es\<close>, every event of the
  order before it is strictly older and none after it is newer, so \<open>e\<close> is the first
  event of the order with the greatest \<open>created_at\<close>.
\<close>

definition kept :: "event list \<Rightarrow> nat \<Rightarrow> event \<Rightarrow> bool" where
  "kept es oid e \<longleftrightarrow>
     order_id e = oid \<and>
     (\<exists>pre post. es = pre @ e # post \<and>
        (\<forall>x\<in>set pre. order_id x = oid \<longrightarrow> created_at x < created_at e) \<and>
        (\<forall>x\<in>set post. order_id x = oid \<longrightarrow> created_at x \<le> created_at e))"

text \<open>The invariant of the grouping loop, \<open>es\<close> being the events read so far.\<close>

definition grouped :: "orders_dict \<Rightarrow> event list \<Rightarrow> bool" where
  "grouped d es \<longleftrightarrow>
     distinct (map fst d) \<and>
     (\<forall>oid. case map_of d oid of
        None \<Rightarrow> oid \<notin> order_id ` set es
      | Some e \<Rightarrow> kept es oid e)"

definition ev :: "nat \<Rightarrow> string \<Rightarrow> string \<Rightarrow> string \<Rightarrow> event" where
  "ev oid ty t st =
     \<lparr>order_id = oid, order_number = None, event_type = ty, created_at = t,
      event_data = [(''status'', st)]\<rparr>"

text \<open>Order 1 has two events at time 3 and an older one; order 2 has one event.\<close>

definition demo_events :: "event list" where
  "demo_events =
     [ev 1 ''STATUS_CHANGED'' ''3'' ''Completed'',
      ev 1 ''PHOTO_ADDED'' ''3'' ''Completed'',
      ev 2 ''ORDER_CREATED'' ''2'' ''New'',
      ev 1 ''ORDER_CREATED'' ''1'' ''New'']"

text \<open>
  \<open>first_occurrence es oid e\<close>: \<open>e\<close> is the first event of order \<open>oid\<close> in \<open>es\<close>.
\<close>

definition first_occurrence :: "event list \<Rightarrow> nat \<Rightarrow> event \<Rightarrow> bool" where
  "first_occurrence es oid e \<longleftrightarrow>
     order_id e = oid \<and>
     (\<exists>pre post. es = pre @ e # post \<and> (\<forall>x\<in>set pre. order_id x \<noteq> oid))"

text \<open>The invariant of the loop of \<^verbatim>\<open>show_completed_orders\<close>.\<close>

definition first_seen :: "orders_dict \<Rightarrow> event list \<Rightarrow> bool" where
  "first_seen d es \<longleftrightarrow>
     distinct (map fst d) \<and>
     (\<forall>oid. case map_of d oid of
        None \<Rightarrow> oid \<notin> order_id ` set es
      | Some e \<Rightarrow> first_occurrence es oid e)"

text \<open>
  A log in which order 5 is updated at time 2 and deleted at time 4, order 6 is only
  deleted, and order 7 was created at time 0.
\<close>

definition demo_log :: "event list" where
  "demo_log =
     [ev 5 ''ORDER_UPDATED'' ''2'' ''In Progress CHN'',
      ev 6 ''ORDER_DELETED'' ''3'' ''Cancelled'',
      ev 5 ''ORDER_DELETED'' ''4'' ''Cancelled'',
      ev 7 ''ORDER_CREATED'' ''0'' ''New'']"


text \<open>Twenty-one rows of a response.\<close>

definition demo_rows :: "event list" where
  "demo_rows = map (\<lambda>i. ev i ''STATUS_CHANGED'' ''5'' ''New'') [0..<21]"

text \<open>The sends among the effects of a handler.\<close>

fun is_send :: "effect \<Rightarrow> bool" where
  "is_send (Bot_send chat text) = True"
| "is_send other = False"

text \<open>The effects that touch the store or the gateway.\<close>

fun is_access :: "effect \<Rightarrow> bool" where
  "is_access (Reply r) = False"
| "is_access Log_error = False"
| "is_access other = True"

definition demo_user :: "nat \<Rightarrow> bot_user" where
  "demo_user i =
     \<lparr>telegram_id = i, username = None, first_name = ''user'', last_name = None,
      is_admin = False\<rparr>"

definition demo_caller :: "nat \<Rightarrow> effective_user" where
  "demo_caller i =
     \<lparr>user_id = i, user_username = None, user_first_name = ''user'', user_last_name = None\<rparr>"

text \<open>The gateway fails at the second send only.\<close>

definition second_fails :: "nat \<Rightarrow> outcome" where
  "second_fails k = (if k = 1 then Raises else Returns)"

text \<open>
  What one run of the loop of \<^verbatim>\<open>check_notifications\<close> over the batch \<open>ns\<close>, from
  iteration \<open>i\<close> on, makes of a row \<open>r\<close> of the table: every iteration whose send and
  update return rewrites the rows with the task's \<open>id\<close>.
\<close>

fun final_row ::
  "(nat \<Rightarrow> outcome) \<Rightarrow> (nat \<Rightarrow> outcome) \<Rightarrow> (nat \<Rightarrow> string) \<Rightarrow> nat \<Rightarrow> notification list
     \<Rightarrow> notification \<Rightarrow> notification" where
  "final_row send upd now i [] r = r"
| "final_row send upd now i (n # ns) r =
     final_row send upd now (Suc i) ns
       (if send i = Returns \<and> upd i = Returns \<and> notif_id r = notif_id n
        then r\<lparr>notif_status := ''sent'', sent_at := Some (now i)\<rparr> else r)"

definition demo_task :: "nat \<Rightarrow> string \<Rightarrow> notification" where
  "demo_task i t =
     \<lparr>notif_id = i, notif_telegram_id = 100 + i, message_text = ''hi'',
      notif_status = ''pending'', notif_created_at = t, sent_at = None\<rparr>"

definition demo_queue :: "notification list" where
  "demo_queue = [demo_task 1 ''3'', demo_task 2 ''1'', demo_task 3 ''2'']"

definition always :: "outcome \<Rightarrow> nat \<Rightarrow> outcome" where
  "always x k = x"

definition demo_now :: "nat \<Rightarrow> string" where
  "demo_now k = ''9''"

section \<open>The grouping loop keeps the first latest event of every order\<close>

lemma kept_snoc_other: "kept xs oid e \<Longrightarrow> order_id x \<noteq> oid \<Longrightarrow> kept (xs @ [x]) oid e"
  unfolding kept_def
  apply (elim conjE exE)
  subgoal for pre post
    apply (intro conjI, assumption)
    apply (rule exI[of _ pre], rule exI[of _ "post @ [x]"])
    apply auto
    done
  done

lemma kept_snoc_le: "kept xs oid e \<Longrightarrow> created_at x \<le> created_at e \<Longrightarrow> kept (xs @ [x]) oid e"
  unfolding kept_def
  apply (elim conjE exE)
  subgoal for pre post
    apply (intro conjI, assumption)
    apply (rule exI[of _ pre], rule exI[of _ "post @ [x]"])
    apply auto
    done
  done

lemma kept_snoc_newer: "kept xs (order_id x) e \<Longrightarrow> created_at e < created_at x \<Longrightarrow> kept (xs @ [x]) (order_id x) x"
  unfolding kept_def
  apply (elim conjE exE)
  subgoal for pre post
    apply (intro conjI, simp)
    apply (rule exI[of _ xs], rule exI[of _ "[]"])
    apply (auto)
    done
  done

lemma kept_snoc_first: "order_id x \<notin> order_id ` set xs \<Longrightarrow> kept (xs @ [x]) (order_id x) x"
  unfolding kept_def
  apply (intro conjI, simp)
  apply (rule exI[of _ xs], rule exI[of _ "[]"])
  apply simp
  apply (metis image_eqI)
  done

lemma grouped_other:
  assumes "grouped d xs" "oid \<noteq> order_id x"
  shows "case map_of d oid of None \<Rightarrow> oid \<notin> order_id ` set (xs @ [x]) | Some e \<Rightarrow> kept (xs @ [x]) oid e"
proof (cases "map_of d oid")
  case None
  with assms show ?thesis by (auto simp: grouped_def split: option.splits dest!: spec[of _ oid])
next
  case (Some e)
  with assms have "kept xs oid e" by (auto simp: grouped_def split: option.splits dest!: spec[of _ oid])
  with assms(2) Some show ?thesis by (simp add: kept_snoc_other)
qed

lemma grouped_step: 
  assumes g: "grouped d xs" 
  shows "grouped (group_step d x) (xs @ [x])"
proof (cases "map_of d (order_id x)")
  case None
  from g None have fresh: "order_id x \<notin> order_id ` set xs"
    by (auto simp: grouped_def split: option.splits dest!: spec[of _ "order_id x"])
  have step: "group_step d x = AList.update (order_id x) x d"
    using None by (simp add: group_step_def)
  show ?thesis unfolding grouped_def step
  proof (intro conjI allI)
    show "distinct (map fst (AList.update (order_id x) x d))"
      using g by (simp add: grouped_def distinct_update)
  next
    fix oid
    show "case map_of (AList.update (order_id x) x d) oid of
            None \<Rightarrow> oid \<notin> order_id ` set (xs @ [x]) | Some e \<Rightarrow> kept (xs @ [x]) oid e"
    proof (cases "oid = order_id x")
      case True
      then show ?thesis using kept_snoc_first[OF fresh] by (simp add: update_conv')
    next
      case False
      then show ?thesis using grouped_other[OF g False] by (simp add: update_conv')
    qed
  qed
next
  case (Some cur)
  from g Some have kc: "kept xs (order_id x) cur"
    by (auto simp: grouped_def split: option.splits dest!: spec[of _ "order_id x"])
  show ?thesis
  proof (cases "created_at cur < created_at x")
    case True
    have step: "group_step d x = AList.update (order_id x) x d"
      using Some True by (simp add: group_step_def)
    show ?thesis unfolding grouped_def step
    proof (intro conjI allI)
      show "distinct (map fst (AList.update (order_id x) x d))"
        using g by (simp add: grouped_def distinct_update)
    next
      fix oid
      show "case map_of (AList.update (order_id x) x d) oid of
              None \<Rightarrow> oid \<notin> order_id ` set (xs @ [x]) | Some e \<Rightarrow> kept (xs @ [x]) oid e"
      proof (cases "oid = order_id x")
        case True
        then show ?thesis using kept_snoc_newer[OF kc \<open>created_at cur < created_at x\<close>] by (simp add: update_conv')
      next
        case False
        then show ?thesis using grouped_other[OF g False] by (simp add: update_conv')
      qed
    qed
  next
    case False
    have step: "group_step d x = d"
      using Some False by (simp add: group_step_def)
    from False have le: "created_at x \<le> created_at cur" by simp
    show ?thesis unfolding grouped_def step
    proof (intro conjI allI)
      show "distinct (map fst d)" using g by (simp add: grouped_def)
    next
      fix oid
      show "case map_of d oid of
              None \<Rightarrow> oid \<notin> order_id ` set (xs @ [x]) | Some e \<Rightarrow> kept (xs @ [x]) oid e"
      proof (cases "oid = order_id x")
        case True
        then show ?thesis using kept_snoc_le[OF kc le] Some by simp
      next
        case False
        then show ?thesis using grouped_other[OF g False] by simp
      qed
    qed
  qed
qed

lemma grouped_loop: "grouped d xs \<Longrightarrow> grouped (group_loop d es) (xs @ es)"
proof (induction es arbitrary: d xs)
  case Nil
  then show ?case by simp
next
  case (Cons e es)
  from Cons.IH[OF grouped_step[OF Cons.prems, of e]] show ?case by simp
qed

lemma grouped_group_orders: "grouped (group_orders es) es"
  using grouped_loop[of "[]" "[]" es] by (simp add: group_orders_def grouped_def)

text \<open>
  Claim C1. For every input sequence the dictionary built by the grouping loop of
  \<^verbatim>\<open>show_orders\<close> has at most one entry per \<open>order_id\<close> (and one for every order of the
  input); the entry of an order is an event of that order in the input, no event of the
  order is newer, and every event of the order before it in the input is strictly
  older: on equal \<open>created_at\<close> the event met first is kept.
\<close>

theorem group_orders_first_latest:
  "distinct (map fst (group_orders es)) \<and>
   fst ` set (group_orders es) = order_id ` set es \<and>
   (\<forall>oid e. map_of (group_orders es) oid = Some e \<longrightarrow>
      order_id e = oid \<and>
      (\<exists>pre post. es = pre @ e # post \<and>
         (\<forall>x\<in>set pre. order_id x = oid \<longrightarrow> created_at x < created_at e) \<and>
         (\<forall>x\<in>set post. order_id x = oid \<longrightarrow> created_at x \<le> created_at e)))"
proof (intro conjI allI impI)
  show "distinct (map fst (group_orders es))"
    using grouped_group_orders[of es] by (simp add: grouped_def)
next
  have g: "\<And>oid. case map_of (group_orders es) oid of
        None \<Rightarrow> oid \<notin> order_id ` set es | Some e \<Rightarrow> kept es oid e"
    using grouped_group_orders[of es] by (simp add: grouped_def)
  show "fst ` set (group_orders es) = order_id ` set es"
  proof (rule set_eqI)
    fix oid
    show "oid \<in> fst ` set (group_orders es) \<longleftrightarrow> oid \<in> order_id ` set es"
    proof (cases "map_of (group_orders es) oid")
      case None
      then have "oid \<notin> fst ` set (group_orders es)" by (simp add: map_of_eq_None_iff)
      moreover from g[of oid] None have "oid \<notin> order_id ` set es" by simp
      ultimately show ?thesis by simp
    next
      case (Some e)
      then have "oid \<in> fst ` set (group_orders es)"
        by (metis map_of_eq_None_iff option.distinct(1))
      moreover from g[of oid] Some have "kept es oid e" by simp
      then have "oid \<in> order_id ` set es" unfolding kept_def by force
      ultimately show ?thesis by simp
    qed
  qed
next
  fix oid e
  assume m: "map_of (group_orders es) oid = Some e"
  have "kept es oid e"
    using grouped_group_orders[of es] m by (auto simp: grouped_def split: option.splits dest!: spec[of _ oid])
  then show "order_id e = oid" and "\<exists>pre post. es = pre @ e # post \<and>
         (\<forall>x\<in>set pre. order_id x = oid \<longrightarrow> created_at x < created_at e) \<and>
         (\<forall>x\<in>set post. order_id x = oid \<longrightarrow> created_at x \<le> created_at e)"
    unfolding kept_def by blast+
qed

lemma demo_group: "group_orders demo_events =
     [(1, ev 1 ''STATUS_CHANGED'' ''3'' ''Completed''), (2, ev 2 ''ORDER_CREATED'' ''2'' ''New'')]"
  by code_simp


theorem group_orders_first_latest_witness:
  "map_of (group_orders demo_events) 1 = Some (ev 1 ''STATUS_CHANGED'' ''3'' ''Completed'') \<and>
   distinct (map fst (group_orders demo_events)) \<and>
   (\<exists>pre post. demo_events = pre @ ev 1 ''STATUS_CHANGED'' ''3'' ''Completed'' # post \<and>
         (\<forall>x\<in>set pre. order_id x = 1 \<longrightarrow>
            created_at x < created_at (ev 1 ''STATUS_CHANGED'' ''3'' ''Completed'')) \<and>
         (\<forall>x\<in>set post. order_id x = 1 \<longrightarrow>
            created_at x \<le> created_at (ev 1 ''STATUS_CHANGED'' ''3'' ''Completed'')))"
proof -
  have m: "map_of (group_orders demo_events) 1 = Some (ev 1 ''STATUS_CHANGED'' ''3'' ''Completed'')"
    by (simp add: demo_group)
  note t = group_orders_first_latest[of demo_events]
  from t have d: "distinct (map fst (group_orders demo_events))" by (rule conjunct1)
  from t m have k: "\<exists>pre post. demo_events = pre @ ev 1 ''STATUS_CHANGED'' ''3'' ''Completed'' # post \<and>
         (\<forall>x\<in>set pre. order_id x = 1 \<longrightarrow>
            created_at x < created_at (ev 1 ''STATUS_CHANGED'' ''3'' ''Completed'')) \<and>
         (\<forall>x\<in>set post. order_id x = 1 \<longrightarrow>
            created_at x \<le> created_at (ev 1 ''STATUS_CHANGED'' ''3'' ''Completed''))"
    by blast
  from m d k show ?thesis by (intro conjI)
qed

section \<open>The projection does not depend on the order of the input\<close>

lemma kept_iff_latest:
  assumes "distinct (map created_at es)"
  shows "kept es oid e \<longleftrightarrow>
     e \<in> set es \<and> order_id e = oid \<and>
     (\<forall>x\<in>set es. order_id x = oid \<longrightarrow> created_at x \<le> created_at e)"
proof
  assume "kept es oid e"
  then obtain pre post where
    d: "order_id e = oid" "es = pre @ e # post"
       "\<forall>y\<in>set pre. order_id y = oid \<longrightarrow> created_at y < created_at e"
       "\<forall>y\<in>set post. order_id y = oid \<longrightarrow> created_at y \<le> created_at e"
    unfolding kept_def by blast
  have "\<forall>x\<in>set es. order_id x = oid \<longrightarrow> created_at x \<le> created_at e"
    using d(2,3,4) by (auto simp: less_imp_le)
  with d(1,2) show "e \<in> set es \<and> order_id e = oid \<and>
     (\<forall>x\<in>set es. order_id x = oid \<longrightarrow> created_at x \<le> created_at e)" by simp
next
  assume r: "e \<in> set es \<and> order_id e = oid \<and>
     (\<forall>x\<in>set es. order_id x = oid \<longrightarrow> created_at x \<le> created_at e)"
  then obtain pre post where s: "es = pre @ e # post" by (meson split_list)
  have "\<forall>y\<in>set pre. order_id y = oid \<longrightarrow> created_at y < created_at e"
  proof (intro ballI impI)
    fix y assume y: "y \<in> set pre" "order_id y = oid"
    then have "created_at y \<le> created_at e" using r s by simp
    moreover have "created_at y \<noteq> created_at e"
      using assms y(1) unfolding s by (auto simp: image_iff)
    ultimately show "created_at y < created_at e" by simp
  qed
  moreover have "\<forall>y\<in>set post. order_id y = oid \<longrightarrow> created_at y \<le> created_at e"
    using r s by simp
  ultimately show "kept es oid e" unfolding kept_def using r s by blast
qed

lemma group_orders_lookup:
  "case map_of (group_orders es) oid of
     None \<Rightarrow> oid \<notin> order_id ` set es
   | Some e \<Rightarrow> kept es oid e"
  using grouped_group_orders[of es] by (simp add: grouped_def)

lemma latest_unique:
  assumes "distinct (map created_at es)"
    and "e \<in> set es" "e' \<in> set es"
    and "created_at e \<le> created_at e'" "created_at e' \<le> created_at e"
  shows "e = e'"
proof -
  have "inj_on created_at (set es)" using assms(1) by (simp add: distinct_map)
  moreover have "created_at e = created_at e'" using assms(4,5) by simp
  ultimately show ?thesis using assms(2,3) by (simp add: inj_on_def)
qed

text \<open>
  Claim C9. When the events of the input have pairwise distinct \<open>created_at\<close>, the mapping
  from \<open>order_id\<close> to the selected event built by the grouping loop of
  \<^verbatim>\<open>show_orders\<close> is the same for every permutation of the input.
\<close>

theorem group_orders_permutation:
  assumes "distinct (map created_at es)" and "mset es' = mset es"
  shows "map_of (group_orders es') = map_of (group_orders es)"
proof (rule ext)
  fix oid
  have s: "set es' = set es" using assms(2) by (rule mset_eq_setD)
  have "mset (map created_at es') = mset (map created_at es)" using assms(2) by simp
  then have d': "distinct (map created_at es')"
    using assms(1) by (metis mset_eq_imp_distinct_iff)
  note l = group_orders_lookup[where es = es and oid = oid]
    and l' = group_orders_lookup[where es = es' and oid = oid]
  show "map_of (group_orders es') oid = map_of (group_orders es) oid"
  proof (cases "map_of (group_orders es) oid")
    case None
    with l have n: "oid \<notin> order_id ` set es" by simp
    show ?thesis
    proof (cases "map_of (group_orders es') oid")
      case None
      with \<open>map_of (group_orders es) oid = None\<close> show ?thesis by simp
    next
      case (Some e')
      with l' have "kept es' oid e'" by simp
      then have "e' \<in> set es' \<and> order_id e' = oid" using kept_iff_latest[OF d'] by blast
      with n s show ?thesis by force
    qed
  next
    case (Some e)
    with l have k: "kept es oid e" by simp
    then have c: "e \<in> set es" "order_id e = oid"
        "\<forall>x\<in>set es. order_id x = oid \<longrightarrow> created_at x \<le> created_at e"
      using kept_iff_latest[OF assms(1)] by blast+
    show ?thesis
    proof (cases "map_of (group_orders es') oid")
      case None
      with l' have "oid \<notin> order_id ` set es'" by simp
      with c(1,2) s show ?thesis by force
    next
      case (Some e')
      with l' have "kept es' oid e'" by simp
      then have c': "e' \<in> set es" "order_id e' = oid"
        "\<forall>x\<in>set es. order_id x = oid \<longrightarrow> created_at x \<le> created_at e'"
        using kept_iff_latest[OF d'] s by blast+
      have "e = e'"
        using latest_unique[OF assms(1) c(1) c'(1)] c c' by blast
      with Some \<open>map_of (group_orders es) oid = Some e\<close> show ?thesis by simp
    qed
  qed
qed

lemma demo_distinct: "distinct (map created_at (tl demo_events))"
  by code_simp

lemma demo_group_tl: "map_of (group_orders (tl demo_events)) 1 = Some (ev 1 ''PHOTO_ADDED'' ''3'' ''Completed'')"
  by code_simp

theorem group_orders_permutation_witness:
  "distinct (map created_at (tl demo_events)) \<and>
   mset (rev (tl demo_events)) = mset (tl demo_events) \<and>
   map_of (group_orders (rev (tl demo_events))) = map_of (group_orders (tl demo_events)) \<and>
   map_of (group_orders (rev (tl demo_events))) 1 = Some (ev 1 ''PHOTO_ADDED'' ''3'' ''Completed'')"
proof -
  have m: "mset (rev (tl demo_events)) = mset (tl demo_events)" by simp
  from group_orders_permutation[OF demo_distinct m] demo_distinct m demo_group_tl
  show ?thesis by simp
qed

section \<open>Deleted orders and the active-orders fetch\<close>

lemma set_window_desc:
  "set (window_desc since cond log) = {e \<in> set log. cond e \<and> since \<le> created_at e}"
  by (simp add: window_desc_def)

lemma group_orders_has_entry:
  "(\<exists>e. map_of (group_orders es) oid = Some e) \<longleftrightarrow> oid \<in> order_id ` set es"
proof (cases "map_of (group_orders es) oid")
  case None
  with group_orders_lookup[where es = es and oid = oid] show ?thesis by simp
next
  case (Some e)
  with group_orders_lookup[where es = es and oid = oid] have "kept es oid e" by simp
  then have "oid \<in> order_id ` set es" unfolding kept_def by force
  with Some show ?thesis by simp
qed

lemma group_orders_entry_in_input:
  assumes "map_of (group_orders es) oid = Some e"
  shows "e \<in> set es \<and> order_id e = oid"
proof -
  from assms group_orders_lookup[where es = es and oid = oid] have "kept es oid e" by simp
  then show ?thesis unfolding kept_def by force
qed

text \<open>
  Claim C5. The fetch of \<^verbatim>\<open>show_orders\<close> returns no \<^verbatim>\<open>ORDER_DELETED\<close> event, so no
  entry of the projection is one; an order has an entry exactly when the window holds an
  event of it that is not a deletion, whatever deletions of it the window holds too
  (newer ones included): none when all its events in the window are deletions.
\<close>

theorem active_orders_ignore_deletions:
  "(\<forall>e\<in>set (fetch_active since log). event_type e \<noteq> ''ORDER_DELETED'') \<and>
   (\<forall>oid e. map_of (group_orders (fetch_active since log)) oid = Some e \<longrightarrow>
      e \<in> set log \<and> order_id e = oid \<and> event_type e \<noteq> ''ORDER_DELETED'' \<and>
      since \<le> created_at e) \<and>
   (\<forall>oid. (\<exists>e. map_of (group_orders (fetch_active since log)) oid = Some e) \<longleftrightarrow>
      (\<exists>x\<in>set log. order_id x = oid \<and> event_type x \<noteq> ''ORDER_DELETED'' \<and>
         since \<le> created_at x))"
proof (intro conjI allI impI ballI)
  fix e assume "e \<in> set (fetch_active since log)"
  then show "event_type e \<noteq> ''ORDER_DELETED''"
    by (simp add: fetch_active_def set_window_desc)
next
  fix oid e
  assume "map_of (group_orders (fetch_active since log)) oid = Some e"
  from group_orders_entry_in_input[OF this]
  have "e \<in> set (fetch_active since log)" and o: "order_id e = oid" by simp_all
  then have "e \<in> set log \<and> event_type e \<noteq> ''ORDER_DELETED'' \<and> since \<le> created_at e"
    by (simp add: fetch_active_def set_window_desc)
  with o show "e \<in> set log" "order_id e = oid" "event_type e \<noteq> ''ORDER_DELETED''"
    "since \<le> created_at e" by simp_all
next
  fix oid
  have "(\<exists>e. map_of (group_orders (fetch_active since log)) oid = Some e) \<longleftrightarrow>
      oid \<in> order_id ` set (fetch_active since log)"
    by (rule group_orders_has_entry)
  also have "\<dots> \<longleftrightarrow> (\<exists>x\<in>set log. order_id x = oid \<and> event_type x \<noteq> ''ORDER_DELETED'' \<and>
         since \<le> created_at x)"
    by (auto simp: fetch_active_def set_window_desc)
  finally show "(\<exists>e. map_of (group_orders (fetch_active since log)) oid = Some e) \<longleftrightarrow>
      (\<exists>x\<in>set log. order_id x = oid \<and> event_type x \<noteq> ''ORDER_DELETED'' \<and>
         since \<le> created_at x)" .
qed

lemma demo_fetch_active:
  "fetch_active ''1'' demo_log = [ev 5 ''ORDER_UPDATED'' ''2'' ''In Progress CHN'']"
  by code_simp

lemma demo_active_5:
  "map_of (group_orders (fetch_active ''1'' demo_log)) 5 =
     Some (ev 5 ''ORDER_UPDATED'' ''2'' ''In Progress CHN'')"
  by code_simp

lemma demo_active_6: "map_of (group_orders (fetch_active ''1'' demo_log)) 6 = None"
  by code_simp

theorem active_orders_ignore_deletions_witness:
  "map_of (group_orders (fetch_active ''1'' demo_log)) 5 =
     Some (ev 5 ''ORDER_UPDATED'' ''2'' ''In Progress CHN'') \<and>
   ev 5 ''ORDER_UPDATED'' ''2'' ''In Progress CHN'' \<in> set demo_log \<and>
   event_type (ev 5 ''ORDER_UPDATED'' ''2'' ''In Progress CHN'') \<noteq> ''ORDER_DELETED'' \<and>
   ev 5 ''ORDER_DELETED'' ''4'' ''Cancelled'' \<in> set demo_log \<and>
   map_of (group_orders (fetch_active ''1'' demo_log)) 6 = None \<and>
   \<not> (\<exists>x\<in>set demo_log. order_id x = 6 \<and> event_type x \<noteq> ''ORDER_DELETED'' \<and>
         ''1'' \<le> created_at x)"
proof -
  note t = active_orders_ignore_deletions[of "''1''" demo_log]
  from t demo_active_5
  have a: "ev 5 ''ORDER_UPDATED'' ''2'' ''In Progress CHN'' \<in> set demo_log \<and>
     event_type (ev 5 ''ORDER_UPDATED'' ''2'' ''In Progress CHN'') \<noteq> ''ORDER_DELETED''"
    by blast
  from t demo_active_6
  have b: "\<not> (\<exists>x\<in>set demo_log. order_id x = 6 \<and> event_type x \<noteq> ''ORDER_DELETED'' \<and>
         ''1'' \<le> created_at x)"
    by (metis option.distinct(1))
  have c: "ev 5 ''ORDER_DELETED'' ''4'' ''Cancelled'' \<in> set demo_log"
    by (simp add: demo_log_def)
  from a b c demo_active_5 demo_active_6 show ?thesis by (intro conjI) simp_all
qed

section \<open>Completed orders keep the first occurrence\<close>

lemma first_occurrence_snoc:
  assumes "first_occurrence es oid e"
  shows "first_occurrence (es @ [x]) oid e"
proof -
  from assms obtain pre post where
    d: "order_id e = oid" "es = pre @ e # post" "\<forall>y\<in>set pre. order_id y \<noteq> oid"
    unfolding first_occurrence_def by blast
  have "es @ [x] = pre @ e # (post @ [x])" using d(2) by simp
  with d(1,3) show ?thesis unfolding first_occurrence_def by blast
qed

lemma first_occurrence_new:
  assumes "order_id x \<notin> order_id ` set es"
  shows "first_occurrence (es @ [x]) (order_id x) x"
proof -
  have "\<forall>y\<in>set es. order_id y \<noteq> order_id x" using assms by (metis image_eqI)
  moreover have "es @ [x] = es @ x # []" by simp
  ultimately show ?thesis unfolding first_occurrence_def by blast
qed

lemma first_seen_step:
  assumes g: "first_seen d es"
  shows "first_seen (completed_step d x) (es @ [x])"
proof -
  have inv: "\<And>oid. case map_of d oid of
        None \<Rightarrow> oid \<notin> order_id ` set es | Some e \<Rightarrow> first_occurrence es oid e"
    using g by (simp add: first_seen_def)
  have dist: "distinct (map fst d)" using g by (simp add: first_seen_def)
  show ?thesis
  proof (cases "map_of d (order_id x)")
    case None
    then have step: "completed_step d x = AList.update (order_id x) x d"
      by (simp add: completed_step_def)
    from inv[of "order_id x"] None have fresh: "order_id x \<notin> order_id ` set es" by simp
    show ?thesis unfolding first_seen_def step
    proof (intro conjI allI)
      show "distinct (map fst (AList.update (order_id x) x d))"
        using dist by (simp add: distinct_update)
    next
      fix oid
      show "case map_of (AList.update (order_id x) x d) oid of
              None \<Rightarrow> oid \<notin> order_id ` set (es @ [x])
            | Some e \<Rightarrow> first_occurrence (es @ [x]) oid e"
      proof (cases "oid = order_id x")
        case True
        then show ?thesis using first_occurrence_new[OF fresh] by (simp add: update_conv')
      next
        case False
        then show ?thesis using inv[of oid]
          by (auto simp: update_conv' first_occurrence_snoc split: option.splits)
      qed
    qed
  next
    case (Some cur)
    then have step: "completed_step d x = d" by (simp add: completed_step_def)
    show ?thesis unfolding first_seen_def step
    proof (intro conjI allI)
      show "distinct (map fst d)" by (rule dist)
    next
      fix oid
      show "case map_of d oid of
              None \<Rightarrow> oid \<notin> order_id ` set (es @ [x])
            | Some e \<Rightarrow> first_occurrence (es @ [x]) oid e"
      proof (cases "oid = order_id x")
        case True
        with Some inv[of oid] show ?thesis by (simp add: first_occurrence_snoc)
      next
        case False
        then show ?thesis using inv[of oid]
          by (auto simp: first_occurrence_snoc split: option.splits)
      qed
    qed
  qed
qed

lemma first_seen_loop: "first_seen d xs \<Longrightarrow> first_seen (completed_loop d es) (xs @ es)"
proof (induction es arbitrary: d xs)
  case Nil
  then show ?case by simp
next
  case (Cons e es)
  from Cons.IH[OF first_seen_step[OF Cons.prems, of e]] show ?case by simp
qed

lemma first_seen_completed_orders: "first_seen (completed_orders es) es"
  using first_seen_loop[of "[]" "[]" es] by (simp add: completed_orders_def first_seen_def)

text \<open>
  Claim C7. The loop of \<^verbatim>\<open>show_completed_orders\<close> keeps, for every \<open>order_id\<close> of the
  fetched sequence, the first event of that order in the sequence, whatever the
  \<open>created_at\<close> of the later ones; every order has one entry.
\<close>

theorem completed_orders_first_occurrence:
  "distinct (map fst (completed_orders es)) \<and>
   fst ` set (completed_orders es) = order_id ` set es \<and>
   (\<forall>oid e. map_of (completed_orders es) oid = Some e \<longrightarrow>
      order_id e = oid \<and>
      (\<exists>pre post. es = pre @ e # post \<and> (\<forall>x\<in>set pre. order_id x \<noteq> oid)))"
proof (intro conjI allI impI)
  show "distinct (map fst (completed_orders es))"
    using first_seen_completed_orders[of es] by (simp add: first_seen_def)
next
  have g: "\<And>oid. case map_of (completed_orders es) oid of
        None \<Rightarrow> oid \<notin> order_id ` set es | Some e \<Rightarrow> first_occurrence es oid e"
    using first_seen_completed_orders[of es] by (simp add: first_seen_def)
  show "fst ` set (completed_orders es) = order_id ` set es"
  proof (rule set_eqI)
    fix oid
    show "oid \<in> fst ` set (completed_orders es) \<longleftrightarrow> oid \<in> order_id ` set es"
    proof (cases "map_of (completed_orders es) oid")
      case None
      then have "oid \<notin> fst ` set (completed_orders es)" by (simp add: map_of_eq_None_iff)
      moreover from g[of oid] None have "oid \<notin> order_id ` set es" by simp
      ultimately show ?thesis by simp
    next
      case (Some e)
      then have "oid \<in> fst ` set (completed_orders es)"
        by (metis map_of_eq_None_iff option.distinct(1))
      moreover from g[of oid] Some have "first_occurrence es oid e" by simp
      then have "oid \<in> order_id ` set es" unfolding first_occurrence_def by force
      ultimately show ?thesis by simp
    qed
  qed
next
  fix oid e
  assume m: "map_of (completed_orders es) oid = Some e"
  have "first_occurrence es oid e"
    using first_seen_completed_orders[of es] m
    by (auto simp: first_seen_def split: option.splits dest!: spec[of _ oid])
  then show "order_id e = oid"
    and "\<exists>pre post. es = pre @ e # post \<and> (\<forall>x\<in>set pre. order_id x \<noteq> oid)"
    unfolding first_occurrence_def by blast+
qed

lemma demo_completed:
  "map_of (completed_orders (rev demo_events)) 1 = Some (ev 1 ''ORDER_CREATED'' ''1'' ''New'')"
  by code_simp

theorem completed_orders_first_occurrence_witness:
  "map_of (completed_orders (rev demo_events)) 1 = Some (ev 1 ''ORDER_CREATED'' ''1'' ''New'') \<and>
   ev 1 ''STATUS_CHANGED'' ''3'' ''Completed'' \<in> set (rev demo_events) \<and>
   distinct (map fst (completed_orders (rev demo_events))) \<and>
   (\<exists>pre post. rev demo_events = pre @ ev 1 ''ORDER_CREATED'' ''1'' ''New'' # post \<and>
      (\<forall>x\<in>set pre. order_id x \<noteq> 1))"
proof -
  note t = completed_orders_first_occurrence[of "rev demo_events"]
  from t have d: "distinct (map fst (completed_orders (rev demo_events)))" by (rule conjunct1)
  from t demo_completed
  have k: "\<exists>pre post. rev demo_events = pre @ ev 1 ''ORDER_CREATED'' ''1'' ''New'' # post \<and>
      (\<forall>x\<in>set pre. order_id x \<noteq> 1)" by blast
  have i: "ev 1 ''STATUS_CHANGED'' ''3'' ''Completed'' \<in> set (rev demo_events)"
    by (simp add: demo_events_def)
  from demo_completed i d k show ?thesis by (intro conjI)
qed

section \<open>The status filter\<close>













section \<open>Truncation of the status listing\<close>

lemma window_desc_descending:
  "sorted_wrt (\<lambda>a b. created_at b \<le> created_at a) (window_desc since cond log)"
proof -
  have "sorted (map created_at (sort_key created_at
          (filter (\<lambda>e. cond e \<and> since \<le> created_at e) log)))"
    by (rule sorted_sort_key)
  then have "sorted_wrt (\<lambda>a b. created_at a \<le> created_at b)
          (sort_key created_at (filter (\<lambda>e. cond e \<and> since \<le> created_at e) log))"
    by (simp add: sorted_map)
  then show ?thesis by (simp add: window_desc_def sorted_wrt_rev)
qed

lemma status_lines_many:
  assumes "length data > 20"
  shows "status_lines q data =
     Status_header q # map (\<lambda>(idx, e). Status_row idx e) (zip [1..<21] (take 20 data))
       @ [Status_more (length data - 20)]"
proof -
  have "length (take 20 data) = 20" using assms by simp
  then have "enumerate 1 (take 20 data) = zip [1..<21] (take 20 data)"
    by (simp add: enumerate_eq_zip)
  then show ?thesis using assms by (simp add: status_lines_def)
qed

lemma status_lines_few:
  assumes "length data \<le> 20"
  shows "status_lines q data =
     Status_header q # map (\<lambda>(idx, e). Status_row idx e) (zip [1..<Suc (length data)] data)"
  using assms by (simp add: status_lines_def enumerate_eq_zip)

text \<open>
  Claim C6. The rows of the fetch of \<^verbatim>\<open>filter_by_status\<close> come in descending
  \<open>created_at\<close>. When the fetch returns \<open>N > 20\<close> rows, the reply lists the first 20 of
  them, numbered from 1, and then the count \<open>N - 20\<close>; when it returns between 1 and 20
  rows, the reply lists them all and no count.
\<close>

theorem status_listing_truncation:
  assumes "args \<noteq> []"
  shows "(length data > 20 \<longrightarrow>
            filter_by_status args (Inr data) =
              Status_listing
                (Status_header (join_args args)
                   # map (\<lambda>(idx, e). Status_row idx e) (zip [1..<21] (take 20 data))
                   @ [Status_more (length data - 20)])) \<and>
         (data \<noteq> [] \<and> length data \<le> 20 \<longrightarrow>
            filter_by_status args (Inr data) =
              Status_listing
                (Status_header (join_args args)
                   # map (\<lambda>(idx, e). Status_row idx e) (zip [1..<Suc (length data)] data))) \<and>
         sorted_wrt (\<lambda>a b. created_at b \<le> created_at a)
           (fetch_status (join_args args) since log)"
proof (intro conjI impI)
  assume n: "length data > 20"
  then have "data \<noteq> []" by auto
  then show "filter_by_status args (Inr data) =
              Status_listing
                (Status_header (join_args args)
                   # map (\<lambda>(idx, e). Status_row idx e) (zip [1..<21] (take 20 data))
                   @ [Status_more (length data - 20)])"
    using assms status_lines_many[OF n] by (simp add: filter_by_status_def)
next
  assume "data \<noteq> [] \<and> length data \<le> 20"
  then show "filter_by_status args (Inr data) =
              Status_listing
                (Status_header (join_args args)
                   # map (\<lambda>(idx, e). Status_row idx e) (zip [1..<Suc (length data)] data))"
    using assms status_lines_few[of data] by (simp add: filter_by_status_def)
next
  show "sorted_wrt (\<lambda>a b. created_at b \<le> created_at a)
           (fetch_status (join_args args) since log)"
    unfolding fetch_status_def by (rule window_desc_descending)
qed

theorem status_listing_truncation_witness:
  "[''New''] \<noteq> [] \<and> length demo_rows = 21 \<and>
   filter_by_status [''New''] (Inr demo_rows) =
     Status_listing
       (Status_header ''New''
          # map (\<lambda>(idx, e). Status_row idx e) (zip [1..<21] (take 20 demo_rows))
          @ [Status_more 1]) \<and>
   filter_by_status [''In'', ''Progress''] (Inr (take 2 demo_rows)) =
     Status_listing
       (Status_header ''In Progress''
          # map (\<lambda>(idx, e). Status_row idx e) (zip [1..<Suc 2] (take 2 demo_rows)))"
proof -
  have l: "length demo_rows = 21" by (simp add: demo_rows_def)
  have a: "[''New''] \<noteq> []" by simp
  have b: "[''In'', ''Progress''] \<noteq> []" by simp
  have l2: "length (take 2 demo_rows) = 2" using l by simp
  have ne: "take 2 demo_rows \<noteq> []" using l2 by auto
  from status_listing_truncation[OF a, of demo_rows] l
  have x: "filter_by_status [''New''] (Inr demo_rows) =
     Status_listing
       (Status_header ''New''
          # map (\<lambda>(idx, e). Status_row idx e) (zip [1..<21] (take 20 demo_rows))
          @ [Status_more 1])" by simp
  have le: "length (take 2 demo_rows) \<le> 20" using l2 by simp
  have j: "join_args [''In'', ''Progress''] = ''In Progress''" by simp
  note t = status_listing_truncation[OF b, of "take 2 demo_rows"]
  note y0 = mp[OF conjunct1[OF conjunct2[OF t]] conjI[OF ne le]]
  have y: "filter_by_status [''In'', ''Progress''] (Inr (take 2 demo_rows)) =
     Status_listing
       (Status_header ''In Progress''
          # map (\<lambda>(idx, e). Status_row idx e) (zip [1..<Suc 2] (take 2 demo_rows)))"
    using y0 unfolding l2 j .
  from a l x y show ?thesis by (intro conjI)
qed

section \<open>The administrators' commands\<close>

text \<open>
  Claim C8. For a caller that is not in \<^verbatim>\<open>ADMIN_IDS\<close>, \<^verbatim>\<open>show_stats\<close> and
  \<^verbatim>\<open>send_notification\<close> do nothing but reply with the refusal: no call of the store and
  no send through the gateway.
\<close>

theorem unauthorized_only_refusal:
  assumes "caller \<notin> set admin_ids"
  shows "show_stats admin_ids caller users_outcome events_outcome weekly_outcome week_ago users log
           = [Reply Admin_only] \<and>
         send_notification admin_ids caller args select_outcome send users = [Reply Admin_only] \<and>
         filter is_access
           (show_stats admin_ids caller users_outcome events_outcome weekly_outcome week_ago users log)
           = [] \<and>
         filter is_access (send_notification admin_ids caller args select_outcome send users) = []"
  using assms by (simp add: show_stats_def send_notification_def)

theorem unauthorized_only_refusal_witness:
  "(2::nat) \<notin> set [1] \<and>
   show_stats [1] 2 Returns Returns Returns ''0'' [demo_user 1] demo_log = [Reply Admin_only] \<and>
   send_notification [1] 2 [''hello''] Returns second_fails [demo_user 1] = [Reply Admin_only] \<and>
   filter is_access (show_stats [1] 1 Returns Returns Returns ''0'' [demo_user 1] demo_log) =
     [Db_select Bot_users, Db_select Cloud_sync_log, Db_select Cloud_sync_log]"
proof -
  have h: "(2::nat) \<notin> set [1]" by simp
  note t = unauthorized_only_refusal[OF h]
  have a: "show_stats [1] 2 Returns Returns Returns ''0'' [demo_user 1] demo_log = [Reply Admin_only]"
    using t by (rule conjunct1)
  have b: "send_notification [1] 2 [''hello''] Returns second_fails [demo_user 1] = [Reply Admin_only]"
    using t by (rule conjunct1[OF conjunct2])
  have c: "filter is_access (show_stats [1] 1 Returns Returns Returns ''0'' [demo_user 1] demo_log) =
     [Db_select Bot_users, Db_select Cloud_sync_log, Db_select Cloud_sync_log]"
    by (simp add: show_stats_def Let_def)
  from h a b c show ?thesis by (intro conjI)
qed

section \<open>The broadcast\<close>

lemma broadcast_loop_tally:
  "broadcast_loop send text i us (s, f, tr) = (s', f', tr') \<Longrightarrow>
     s' = s + length (filter (\<lambda>k. send k = Returns) [i..<i + length us]) \<and>
     f' = f + length (filter (\<lambda>k. send k = Raises) [i..<i + length us]) \<and>
     filter is_send tr' =
       filter is_send tr @ map (\<lambda>u. Bot_send (telegram_id u) (Broadcast_text text)) us"
proof (induction us arbitrary: i s f tr)
  case Nil
  then show ?case by simp
next
  case (Cons u us)
  have r: "[i..<i + length (u # us)] = i # [Suc i..<Suc i + length us]"
    by (simp del: upt_Suc add: upt_conv_Cons)
  show ?case
  proof (cases "send i")
    case Returns
    with Cons.prems have
      "broadcast_loop send text (Suc i) us
         (s + 1, f, tr @ [Bot_send (telegram_id u) (Broadcast_text text)]) = (s', f', tr')"
      by simp
    from Cons.IH[OF this] Returns show ?thesis unfolding r by simp
  next
    case Raises
    with Cons.prems have
      "broadcast_loop send text (Suc i) us
         (s, f + 1, tr @ [Bot_send (telegram_id u) (Broadcast_text text), Log_error]) = (s', f', tr')"
      by simp
    from Cons.IH[OF this] Raises show ?thesis unfolding r by simp
  qed
qed

lemma outcome_partition:
  "length (filter (\<lambda>k. send k = Returns) ks) + length (filter (\<lambda>k. send k = Raises) ks) = length ks"
proof (induction ks)
  case Nil
  show ?case by simp
next
  case (Cons k ks)
  then show ?case by (cases "send k") simp_all
qed

text \<open>
  Claim C3. For an administrator and a non-empty argument list, when the registry returns
  the recipients \<open>users\<close>, the sends of \<^verbatim>\<open>send_notification\<close> are one per recipient, in
  the registry's order, whatever sends fail; for a non-empty list the handler ends with
  the tally, in which \<open>sent_count\<close> is the number of sends that returned and
  \<open>sent_count + failed_count\<close> is the number of recipients.
\<close>

theorem broadcast_one_send_each:
  assumes "caller \<in> set admin_ids" and "args \<noteq> []"
  shows "filter is_send (send_notification admin_ids caller args Returns send users) =
           map (\<lambda>u. Bot_send (telegram_id u) (Broadcast_text (join_args args))) users \<and>
         (users \<noteq> [] \<longrightarrow>
            (\<exists>sent_count failed_count.
               last (send_notification admin_ids caller args Returns send users) =
                 Reply (Notify_tally sent_count failed_count) \<and>
               sent_count = length (filter (\<lambda>k. send k = Returns) [0..<length users]) \<and>
               sent_count + failed_count = length users))"
proof (cases "users = []")
  case True
  with assms show ?thesis by (simp add: send_notification_def)
next
  case False
  obtain s f tr where
    b: "broadcast_loop send (join_args args) 0 users (0, 0, [Db_select Bot_users]) = (s, f, tr)"
    by (metis prod_cases3)
  from broadcast_loop_tally[OF b] have
    s: "s = length (filter (\<lambda>k. send k = Returns) [0..<length users])" and
    f: "f = length (filter (\<lambda>k. send k = Raises) [0..<length users])" and
    t: "filter is_send tr =
          map (\<lambda>u. Bot_send (telegram_id u) (Broadcast_text (join_args args))) users"
    by simp_all
  have r: "send_notification admin_ids caller args Returns send users =
             tr @ [Reply (Notify_tally s f)]"
    using assms False b by (simp add: send_notification_def)
  have "s + f = length users"
    using outcome_partition[of send "[0..<length users]"] s f by simp
  with r s t False show ?thesis by simp
qed

lemma demo_broadcast:
  "send_notification [9] 9 [''maintenance'', ''tonight''] Returns second_fails
     [demo_user 1, demo_user 2, demo_user 3] =
   [Db_select Bot_users,
    Bot_send 1 (Broadcast_text ''maintenance tonight''),
    Bot_send 2 (Broadcast_text ''maintenance tonight''), Log_error,
    Bot_send 3 (Broadcast_text ''maintenance tonight''),
    Reply (Notify_tally 2 1)]"
  by (simp add: send_notification_def second_fails_def demo_user_def)

theorem broadcast_one_send_each_witness:
  "(9::nat) \<in> set [9] \<and> [''maintenance'', ''tonight''] \<noteq> [] \<and>
   filter is_send
     (send_notification [9] 9 [''maintenance'', ''tonight''] Returns second_fails
        [demo_user 1, demo_user 2, demo_user 3]) =
     map (\<lambda>u. Bot_send (telegram_id u) (Broadcast_text (join_args [''maintenance'', ''tonight''])))
       [demo_user 1, demo_user 2, demo_user 3] \<and>
   last (send_notification [9] 9 [''maintenance'', ''tonight''] Returns second_fails
        [demo_user 1, demo_user 2, demo_user 3]) = Reply (Notify_tally 2 1)"
proof -
  have h1: "(9::nat) \<in> set [9]" by simp
  have h2: "[''maintenance'', ''tonight''] \<noteq> []" by simp
  note t = broadcast_one_send_each[OF h1 h2, of second_fails "[demo_user 1, demo_user 2, demo_user 3]"]
  have l: "last (send_notification [9] 9 [''maintenance'', ''tonight''] Returns second_fails
        [demo_user 1, demo_user 2, demo_user 3]) = Reply (Notify_tally 2 1)"
    unfolding demo_broadcast by simp
  from h1 h2 conjunct1[OF t] l show ?thesis by (intro conjI)
qed

section \<open>Registration\<close>

lemma start_registry:
  "fst (start admin_ids user sel ins users) =
     (if sel = Returns \<and> ins = Returns \<and> user_id user \<notin> telegram_id ` set users
      then users @ [user_data admin_ids user] else users)"
proof -
  have "filter (\<lambda>r. telegram_id r = user_id user) users = [] \<longleftrightarrow>
        user_id user \<notin> telegram_id ` set users"
    by (auto simp: filter_empty_conv image_iff)
  then show ?thesis
    by (cases sel; cases ins) (simp_all add: start_def)
qed

lemma start_distinct:
  assumes "distinct (map telegram_id users)"
  shows "distinct (map telegram_id (fst (start admin_ids user sel ins users)))"
  using assms by (simp add: start_registry user_data_def)

lemma start_keeps_rows:
  "telegram_id ` set users \<subseteq> telegram_id ` set (fst (start admin_ids user sel ins users))"
  by (auto simp: start_registry)

lemma start_registers:
  "user_id user \<in> telegram_id ` set (fst (start admin_ids user Returns Returns users))"
  by (simp add: start_registry user_data_def)

lemma start_run_distinct:
  "distinct (map telegram_id users) \<Longrightarrow>
     distinct (map telegram_id (start_run admin_ids calls users))"
proof (induction calls arbitrary: users)
  case Nil
  then show ?case by simp
next
  case (Cons c calls)
  obtain user sel ins where c: "c = (user, sel, ins)" by (cases c)
  from Cons.IH[OF start_distinct[OF Cons.prems]] show ?case by (simp add: c)
qed

lemma start_run_keeps_rows:
  "telegram_id ` set users \<subseteq> telegram_id ` set (start_run admin_ids calls users)"
proof (induction calls arbitrary: users)
  case Nil
  show ?case by simp
next
  case (Cons c calls)
  obtain user sel ins where c: "c = (user, sel, ins)" by (cases c)
  have "telegram_id ` set users \<subseteq> telegram_id ` set (fst (start admin_ids user sel ins users))"
    by (rule start_keeps_rows)
  also have "\<dots> \<subseteq> telegram_id ` set (start_run admin_ids calls (fst (start admin_ids user sel ins users)))"
    by (rule Cons.IH)
  finally show ?case by (simp add: c)
qed

lemma start_run_registers:
  "(user, Returns, Returns) \<in> set calls \<Longrightarrow>
     user_id user \<in> telegram_id ` set (start_run admin_ids calls users)"
proof (induction calls arbitrary: users)
  case Nil
  then show ?case by simp
next
  case (Cons c calls)
  obtain user' sel ins where c: "c = (user', sel, ins)" by (cases c)
  show ?case
  proof (cases "c = (user, Returns, Returns)")
    case True
    have "user_id user \<in> telegram_id ` set (fst (start admin_ids user Returns Returns users))"
      by (rule start_registers)
    then have "user_id user \<in> telegram_id ` set
        (start_run admin_ids calls (fst (start admin_ids user Returns Returns users)))"
      using start_run_keeps_rows by blast
    with True show ?thesis by simp
  next
    case False
    with Cons.prems have "(user, Returns, Returns) \<in> set calls" by simp
    from Cons.IH[OF this] show ?thesis by (simp add: c)
  qed
qed

lemma one_row_of_distinct:
  "distinct (map telegram_id users) \<Longrightarrow> i \<in> telegram_id ` set users \<Longrightarrow>
     length (filter (\<lambda>r. telegram_id r = i) users) = 1"
proof (induction users)
  case Nil
  then show ?case by simp
next
  case (Cons u users)
  show ?case
  proof (cases "telegram_id u = i")
    case True
    with Cons.prems(1) have "i \<notin> telegram_id ` set users" by auto
    then have "filter (\<lambda>r. telegram_id r = i) users = []"
      by (auto simp: filter_empty_conv)
    with True show ?thesis by simp
  next
    case False
    with Cons show ?thesis by auto
  qed
qed

text \<open>
  Claim C10, amended. \<^verbatim>\<open>start\<close> writes a row only when the lookup and the insert both
  return and the registry has no row of the caller, and then it appends the caller's
  row; a second \<^verbatim>\<open>/start\<close> of a caller so registered changes nothing. A registry with
  at most one row per user has at most one row per user after any run of \<^verbatim>\<open>/start\<close>
  commands, so the recipient list of the broadcast names every user at most once, and it
  has exactly one row of a user once a \<^verbatim>\<open>/start\<close> of that user had both calls return.
\<close>

theorem start_insert_if_absent:
  "(fst (start admin_ids user sel ins users) \<noteq> users \<longrightarrow>
      user_id user \<notin> telegram_id ` set users \<and> sel = Returns \<and> ins = Returns \<and>
      fst (start admin_ids user sel ins users) = users @ [user_data admin_ids user]) \<and>
   fst (start admin_ids user sel' ins' (fst (start admin_ids user Returns Returns users))) =
     fst (start admin_ids user Returns Returns users) \<and>
   (distinct (map telegram_id users) \<longrightarrow>
      distinct (map telegram_id (start_run admin_ids calls users))) \<and>
   (distinct (map telegram_id users) \<and> (user, Returns, Returns) \<in> set calls \<longrightarrow>
      length (filter (\<lambda>r. telegram_id r = user_id user) (start_run admin_ids calls users)) = 1)"
proof (intro conjI impI)
  assume "fst (start admin_ids user sel ins users) \<noteq> users"
  then have "sel = Returns \<and> ins = Returns \<and> user_id user \<notin> telegram_id ` set users"
    unfolding start_registry by (simp split: if_splits)
  then show "user_id user \<notin> telegram_id ` set users" "sel = Returns" "ins = Returns"
    "fst (start admin_ids user sel ins users) = users @ [user_data admin_ids user]"
    by (simp_all add: start_registry)
next
  have "user_id user \<in> telegram_id ` set (fst (start admin_ids user Returns Returns users))"
    by (rule start_registers)
  then show "fst (start admin_ids user sel' ins' (fst (start admin_ids user Returns Returns users))) =
     fst (start admin_ids user Returns Returns users)"
    by (subst start_registry) simp
next
  assume "distinct (map telegram_id users)"
  then show "distinct (map telegram_id (start_run admin_ids calls users))"
    by (rule start_run_distinct)
next
  assume a: "distinct (map telegram_id users) \<and> (user, Returns, Returns) \<in> set calls"
  then have "distinct (map telegram_id (start_run admin_ids calls users))"
    by (simp add: start_run_distinct)
  moreover from a have "user_id user \<in> telegram_id ` set (start_run admin_ids calls users)"
    by (simp add: start_run_registers)
  ultimately show "length (filter (\<lambda>r. telegram_id r = user_id user)
      (start_run admin_ids calls users)) = 1"
    by (rule one_row_of_distinct)
qed

theorem start_insert_if_absent_witness:
  "fst (start [] (demo_caller 4) Returns Returns []) \<noteq> [] \<and>
   fst (start [] (demo_caller 4) Returns Returns []) = [] @ [user_data [] (demo_caller 4)] \<and>
   distinct (map telegram_id [demo_user 3]) \<and>
   (demo_caller 4, Returns, Returns) \<in>
     set [(demo_caller 4, Raises, Returns), (demo_caller 4, Returns, Returns),
          (demo_caller 4, Returns, Returns)] \<and>
   distinct (map telegram_id (start_run []
     [(demo_caller 4, Raises, Returns), (demo_caller 4, Returns, Returns),
      (demo_caller 4, Returns, Returns)] [demo_user 3])) \<and>
   length (filter (\<lambda>r. telegram_id r = user_id (demo_caller 4)) (start_run []
     [(demo_caller 4, Raises, Returns), (demo_caller 4, Returns, Returns),
      (demo_caller 4, Returns, Returns)] [demo_user 3])) = 1"
proof -
  have n: "fst (start [] (demo_caller 4) Returns Returns []) \<noteq> []"
    by (simp add: start_def)
  have d: "distinct (map telegram_id [demo_user 3])" by simp
  have m: "(demo_caller 4, Returns, Returns) \<in>
     set [(demo_caller 4, Raises, Returns), (demo_caller 4, Returns, Returns),
          (demo_caller 4, Returns, Returns)]" by simp
  note t = start_insert_if_absent[of "[]" "demo_caller 4" Returns Returns "[]"]
  note u = start_insert_if_absent[of "[]" "demo_caller 4" _ _ "[demo_user 3]" _ _
     "[(demo_caller 4, Raises, Returns), (demo_caller 4, Returns, Returns),
       (demo_caller 4, Returns, Returns)]"]
  from t n have a: "fst (start [] (demo_caller 4) Returns Returns []) = [] @ [user_data [] (demo_caller 4)]"
    by blast
  from u d have b: "distinct (map telegram_id (start_run []
     [(demo_caller 4, Raises, Returns), (demo_caller 4, Returns, Returns),
      (demo_caller 4, Returns, Returns)] [demo_user 3]))" by blast
  from u d m have c: "length (filter (\<lambda>r. telegram_id r = user_id (demo_caller 4)) (start_run []
     [(demo_caller 4, Raises, Returns), (demo_caller 4, Returns, Returns),
      (demo_caller 4, Returns, Returns)] [demo_user 3])) = 1" by blast
  from n a d m b c show ?thesis by (intro conjI)
qed

text \<open>
  Claim C10 as stated fails when a call of the store raises: the handler logs the error
  and welcomes the caller, and the registry has no row of the caller, also after a
  second \<^verbatim>\<open>/start\<close> whose insert raises.
\<close>

theorem start_unregistered_counterexample:
  "length (filter (\<lambda>r. telegram_id r = user_id (demo_caller 4))
     (start_run [] [(demo_caller 4, Raises, Returns), (demo_caller 4, Returns, Raises)] [])) = 0 \<and>
   snd (start [] (demo_caller 4) Raises Returns []) =
     [Db_select Bot_users, Log_error, Reply Welcome]"
  by (simp add: start_def)

section \<open>One cycle of the dispatcher\<close>

lemma dispatch_loop_queue:
  "fst (dispatch_loop send upd now i ns (q, tr)) = map (final_row send upd now i ns) q"
proof (induction ns arbitrary: i q tr)
  case Nil
  show ?case by simp
next
  case (Cons n ns)
  show ?case
  proof (cases "send i")
    case Raises
    then show ?thesis using Cons.IH by simp
  next
    case Returns
    note s = this
    show ?thesis
    proof (cases "upd i")
      case Raises
      with s show ?thesis using Cons.IH by simp
    next
      case Returns
      with s show ?thesis using Cons.IH by (simp add: mark_sent_def o_def)
    qed
  qed
qed

lemma dispatch_loop_sends:
  "filter is_send (snd (dispatch_loop send upd now i ns (q, tr))) =
     filter is_send tr @ map (\<lambda>n. Bot_send (notif_telegram_id n) (Task_text (message_text n))) ns"
proof (induction ns arbitrary: i q tr)
  case Nil
  show ?case by simp
next
  case (Cons n ns)
  show ?case
  proof (cases "send i")
    case Raises
    then show ?thesis using Cons.IH by simp
  next
    case Returns
    then show ?thesis using Cons.IH by (cases "upd i") simp_all
  qed
qed

lemma final_row_untouched:
  "(\<And>j. j < length ns \<Longrightarrow> notif_id (ns ! j) = notif_id r \<Longrightarrow>
        \<not> (send (i + j) = Returns \<and> upd (i + j) = Returns)) \<Longrightarrow>
     final_row send upd now i ns r = r"
proof (induction ns arbitrary: i)
  case Nil
  show ?case by simp
next
  case (Cons n ns)
  have h: "\<not> (send i = Returns \<and> upd i = Returns \<and> notif_id r = notif_id n)"
    using Cons.prems[of 0] by auto
  have "final_row send upd now (Suc i) ns r = r"
  proof (rule Cons.IH)
    fix j assume "j < length ns" "notif_id (ns ! j) = notif_id r"
    then show "\<not> (send (Suc i + j) = Returns \<and> upd (Suc i + j) = Returns)"
      using Cons.prems[of "Suc j"] by simp
  qed
  with h show ?case by auto
qed

lemma final_row_marked:
  "distinct (map notif_id ns) \<Longrightarrow> j < length ns \<Longrightarrow> notif_id (ns ! j) = notif_id r \<Longrightarrow>
     send (i + j) = Returns \<Longrightarrow> upd (i + j) = Returns \<Longrightarrow>
     final_row send upd now i ns r = r\<lparr>notif_status := ''sent'', sent_at := Some (now (i + j))\<rparr>"
proof (induction ns arbitrary: i j)
  case Nil
  then show ?case by simp
next
  case (Cons n ns)
  show ?case
  proof (cases j)
    case 0
    with Cons.prems have hd: "send i = Returns" "upd i = Returns" "notif_id r = notif_id n"
      by simp_all
    have "final_row send upd now (Suc i) ns (r\<lparr>notif_status := ''sent'', sent_at := Some (now i)\<rparr>)
            = r\<lparr>notif_status := ''sent'', sent_at := Some (now i)\<rparr>"
    proof (rule final_row_untouched)
      fix k assume "k < length ns"
        "notif_id (ns ! k) = notif_id (r\<lparr>notif_status := ''sent'', sent_at := Some (now i)\<rparr>)"
      then have "ns ! k \<in> set ns" and "notif_id (ns ! k) = notif_id n"
        using hd(3) by simp_all
      then have "notif_id n \<in> notif_id ` set ns" by (metis image_eqI)
      with Cons.prems(1) show "\<not> (send (Suc i + k) = Returns \<and> upd (Suc i + k) = Returns)"
        by simp
    qed
    with hd 0 show ?thesis by simp
  next
    case (Suc j')
    with Cons.prems have j': "j' < length ns" "notif_id (ns ! j') = notif_id r"
      "send (Suc i + j') = Returns" "upd (Suc i + j') = Returns" by simp_all
    then have "notif_id r \<in> notif_id ` set ns" by (metis image_eqI nth_mem)
    with Cons.prems(1) have "notif_id r \<noteq> notif_id n" by auto
    moreover from Cons.prems(1) have "distinct (map notif_id ns)" by simp
    ultimately show ?thesis using Cons.IH[OF _ j'] Suc by simp
  qed
qed

lemma final_row_failed:
  assumes "distinct (map notif_id ns)" and "j < length ns" and "notif_id (ns ! j) = notif_id r"
    and "\<not> (send (i + j) = Returns \<and> upd (i + j) = Returns)"
  shows "final_row send upd now i ns r = r"
proof (rule final_row_untouched)
  fix k assume k: "k < length ns" "notif_id (ns ! k) = notif_id r"
  then have e: "map notif_id ns ! k = map notif_id ns ! j" using assms(2,3) by simp
  have "k < length (map notif_id ns)" "j < length (map notif_id ns)"
    using k(1) assms(2) by simp_all
  from nth_eq_iff_index_eq[OF assms(1) this] e have "k = j" by blast
  with assms(4) show "\<not> (send (i + k) = Returns \<and> upd (i + k) = Returns)" by simp
qed

lemma final_row_not_fetched:
  assumes "notif_id r \<notin> notif_id ` set ns"
  shows "final_row send upd now i ns r = r"
proof (rule final_row_untouched)
  fix k assume "k < length ns" "notif_id (ns ! k) = notif_id r"
  then have "notif_id r \<in> notif_id ` set ns" by (metis image_eqI nth_mem)
  with assms show "\<not> (send (i + k) = Returns \<and> upd (i + k) = Returns)" by simp
qed

lemma fetch_pending_subset:
  "t \<in> set (fetch_pending queue) \<Longrightarrow> t \<in> set queue \<and> notif_status t = ''pending''"
  unfolding fetch_pending_def by (auto dest: in_set_takeD)

lemma fetch_pending_length:
  "length (fetch_pending queue) =
     min 10 (length (filter (\<lambda>n. notif_status n = ''pending'') queue))"
  by (simp add: fetch_pending_def min.commute)

lemma fetch_pending_sorted: "sorted (map notif_created_at (fetch_pending queue))"
proof -
  have "sorted (take 10 (map notif_created_at
          (sort_key notif_created_at (filter (\<lambda>n. notif_status n = ''pending'') queue))))"
    by (rule sorted_wrt_take) (rule sorted_sort_key)
  then show ?thesis by (simp add: fetch_pending_def take_map)
qed

lemma fetch_pending_oldest:
  assumes "t \<in> set (fetch_pending queue)" and "p \<in> set queue"
    and "notif_status p = ''pending''" and "p \<notin> set (fetch_pending queue)"
  shows "notif_created_at t \<le> notif_created_at p"
proof -
  let ?s = "sort_key notif_created_at (filter (\<lambda>n. notif_status n = ''pending'') queue)"
  have "sorted (map notif_created_at (take 10 ?s @ drop 10 ?s))"
    by (simp only: append_take_drop_id sorted_sort_key)
  then have "sorted (map notif_created_at (take 10 ?s) @ map notif_created_at (drop 10 ?s))"
    by (simp only: map_append)
  then have "\<forall>x\<in>set (map notif_created_at (take 10 ?s)).
      \<forall>y\<in>set (map notif_created_at (drop 10 ?s)). x \<le> y"
    using sorted_append by blast
  then have o: "\<forall>x\<in>set (take 10 ?s). \<forall>y\<in>set (drop 10 ?s).
      notif_created_at x \<le> notif_created_at y"
    by simp
  have "p \<in> set ?s" using assms(2,3) by simp
  then have "p \<in> set (take 10 ?s @ drop 10 ?s)" by (simp only: append_take_drop_id)
  then have "p \<in> set (take 10 ?s) \<or> p \<in> set (drop 10 ?s)" by (simp only: set_append Un_iff)
  with assms(4) have "p \<in> set (drop 10 ?s)" by (simp add: fetch_pending_def)
  moreover have "t \<in> set (take 10 ?s)" using assms(1) by (simp add: fetch_pending_def)
  ultimately show ?thesis using o by blast
qed

lemma fetch_pending_distinct:
  assumes "distinct (map notif_id queue)"
  shows "distinct (map notif_id (fetch_pending queue))"
proof -
  let ?f = "filter (\<lambda>n. notif_status n = ''pending'') queue"
  have "distinct (map notif_id ?f)" using assms by (rule distinct_map_filter)
  moreover have "mset (map notif_id (sort_key notif_created_at ?f)) = mset (map notif_id ?f)"
    by simp
  ultimately have "distinct (map notif_id (sort_key notif_created_at ?f))"
    by (metis mset_eq_imp_distinct_iff)
  then have "distinct (take 10 (map notif_id (sort_key notif_created_at ?f)))"
    by (rule distinct_take)
  then show ?thesis by (simp add: fetch_pending_def take_map)
qed

text \<open>
  Claim C4, amended. One cycle of \<^verbatim>\<open>check_notifications\<close> whose fetch returns (the rows
  of the table having distinct \<open>id\<close>s) fetches \<open>min 10 pending_count\<close> pending tasks,
  oldest \<open>created_at\<close> first and none newer than a pending task left behind; it sends
  once for every fetched task, in that order, whatever fails. A fetched task whose send
  and status update both return has status \<^verbatim>\<open>sent\<close> and \<open>sent_at\<close> set afterwards; a
  fetched task whose send raises, and every row that was not fetched, is unchanged.
\<close>

theorem dispatch_cycle:
  assumes "distinct (map notif_id queue)"
    and "batch = fetch_pending queue"
    and "result = check_notifications Returns send upd now queue"
  shows "length batch = min 10 (length (filter (\<lambda>n. notif_status n = ''pending'') queue)) \<and>
         sorted (map notif_created_at batch) \<and>
         (\<forall>t\<in>set batch. t \<in> set queue \<and> notif_status t = ''pending'' \<and>
            (\<forall>p\<in>set queue. notif_status p = ''pending'' \<and> p \<notin> set batch \<longrightarrow>
               notif_created_at t \<le> notif_created_at p)) \<and>
         filter is_send (snd result) =
           map (\<lambda>n. Bot_send (notif_telegram_id n) (Task_text (message_text n))) batch \<and>
         length (fst result) = length queue \<and>
         (\<forall>j<length batch. \<forall>k<length queue. queue ! k = batch ! j \<longrightarrow>
            (send j = Returns \<and> upd j = Returns \<longrightarrow>
               fst result ! k =
                 (batch ! j)\<lparr>notif_status := ''sent'', sent_at := Some (now j)\<rparr>) \<and>
            (send j = Raises \<longrightarrow> fst result ! k = batch ! j)) \<and>
         (\<forall>k<length queue. queue ! k \<notin> set batch \<longrightarrow> fst result ! k = queue ! k)"
proof -
  have q: "fst result = map (final_row send upd now 0 batch) queue"
    using assms(2,3) by (simp add: check_notifications_def dispatch_loop_queue)
  have db: "distinct (map notif_id batch)"
    using assms(1,2) by (simp add: fetch_pending_distinct)
  have c1: "length batch = min 10 (length (filter (\<lambda>n. notif_status n = ''pending'') queue))"
    using assms(2) by (simp add: fetch_pending_length)
  have c2: "sorted (map notif_created_at batch)"
    using assms(2) by (simp add: fetch_pending_sorted)
  have c3: "\<forall>t\<in>set batch. t \<in> set queue \<and> notif_status t = ''pending'' \<and>
            (\<forall>p\<in>set queue. notif_status p = ''pending'' \<and> p \<notin> set batch \<longrightarrow>
               notif_created_at t \<le> notif_created_at p)"
    using assms(2) fetch_pending_subset fetch_pending_oldest by blast
  have c4: "filter is_send (snd result) =
           map (\<lambda>n. Bot_send (notif_telegram_id n) (Task_text (message_text n))) batch"
    using assms(2,3) by (simp add: check_notifications_def dispatch_loop_sends)
  have c5: "length (fst result) = length queue" using q by simp
  have c6: "\<forall>j<length batch. \<forall>k<length queue. queue ! k = batch ! j \<longrightarrow>
            (send j = Returns \<and> upd j = Returns \<longrightarrow>
               fst result ! k =
                 (batch ! j)\<lparr>notif_status := ''sent'', sent_at := Some (now j)\<rparr>) \<and>
            (send j = Raises \<longrightarrow> fst result ! k = batch ! j)"
  proof (intro allI impI conjI)
    fix j k
    assume j: "j < length batch" and k: "k < length queue" and e: "queue ! k = batch ! j"
      and ok: "send j = Returns \<and> upd j = Returns"
    have "final_row send upd now 0 batch (batch ! j) =
            (batch ! j)\<lparr>notif_status := ''sent'', sent_at := Some (now (0 + j))\<rparr>"
      using ok by (intro final_row_marked[OF db j]) simp_all
    then show "fst result ! k =
                 (batch ! j)\<lparr>notif_status := ''sent'', sent_at := Some (now j)\<rparr>"
      using q k e by simp
  next
    fix j k
    assume j: "j < length batch" and k: "k < length queue" and e: "queue ! k = batch ! j"
      and f: "send j = Raises"
    have "final_row send upd now 0 batch (batch ! j) = batch ! j"
      using f by (intro final_row_failed[OF db j]) simp_all
    then show "fst result ! k = batch ! j" using q k e by simp
  qed
  have c7: "\<forall>k<length queue. queue ! k \<notin> set batch \<longrightarrow> fst result ! k = queue ! k"
  proof (intro allI impI)
    fix k assume k: "k < length queue" and n: "queue ! k \<notin> set batch"
    have "notif_id (queue ! k) \<notin> notif_id ` set batch"
    proof
      assume "notif_id (queue ! k) \<in> notif_id ` set batch"
      then obtain t where t: "t \<in> set batch" "notif_id t = notif_id (queue ! k)" by auto
      then have "t \<in> set queue" using assms(2) fetch_pending_subset by blast
      moreover have "queue ! k \<in> set queue" using k by simp
      moreover have "inj_on notif_id (set queue)" using assms(1) by (simp add: distinct_map)
      ultimately have "t = queue ! k" using t(2) by (simp add: inj_on_def)
      with t(1) n show False by simp
    qed
    then show "fst result ! k = queue ! k"
      using q k by (simp add: final_row_not_fetched)
  qed
  from c1 c2 c3 c4 c5 c6 c7 show ?thesis by (intro conjI)
qed

lemma demo_batch: "fetch_pending demo_queue = [demo_task 2 ''1'', demo_task 3 ''2'', demo_task 1 ''3'']"
  by code_simp

theorem dispatch_cycle_witness:
  "distinct (map notif_id demo_queue) \<and>
   fetch_pending demo_queue = [demo_task 2 ''1'', demo_task 3 ''2'', demo_task 1 ''3''] \<and>
   filter is_send (snd (check_notifications Returns second_fails (always Returns) demo_now demo_queue)) =
     map (\<lambda>n. Bot_send (notif_telegram_id n) (Task_text (message_text n)))
       [demo_task 2 ''1'', demo_task 3 ''2'', demo_task 1 ''3''] \<and>
   fst (check_notifications Returns second_fails (always Returns) demo_now demo_queue) ! 0 =
     (demo_task 1 ''3'')\<lparr>notif_status := ''sent'', sent_at := Some (demo_now 2)\<rparr> \<and>
   fst (check_notifications Returns second_fails (always Returns) demo_now demo_queue) ! 2 =
     demo_task 3 ''2''"
proof -
  have d: "distinct (map notif_id demo_queue)" by (simp add: demo_queue_def demo_task_def)
  note t = dispatch_cycle[OF d demo_batch[symmetric] refl, of second_fails "always Returns" demo_now]
  have s: "filter is_send (snd (check_notifications Returns second_fails (always Returns) demo_now demo_queue)) =
     map (\<lambda>n. Bot_send (notif_telegram_id n) (Task_text (message_text n)))
       [demo_task 2 ''1'', demo_task 3 ''2'', demo_task 1 ''3'']"
    using t by blast
  have l: "length demo_queue = 3" by (simp add: demo_queue_def)
  have q0: "demo_queue ! 0 = [demo_task 2 ''1'', demo_task 3 ''2'', demo_task 1 ''3''] ! 2"
    by (simp add: demo_queue_def)
  have q2: "demo_queue ! 2 = [demo_task 2 ''1'', demo_task 3 ''2'', demo_task 1 ''3''] ! 1"
    by (simp add: demo_queue_def)
  have o2: "second_fails 2 = Returns \<and> always Returns 2 = Returns"
    by (simp add: second_fails_def always_def)
  have o1: "second_fails 1 = Raises" by (simp add: second_fails_def)
  from t have c6: "\<forall>j<length [demo_task 2 ''1'', demo_task 3 ''2'', demo_task 1 ''3''].
      \<forall>k<length demo_queue.
        demo_queue ! k = [demo_task 2 ''1'', demo_task 3 ''2'', demo_task 1 ''3''] ! j \<longrightarrow>
        (second_fails j = Returns \<and> always Returns j = Returns \<longrightarrow>
           fst (check_notifications Returns second_fails (always Returns) demo_now demo_queue) ! k =
             ([demo_task 2 ''1'', demo_task 3 ''2'', demo_task 1 ''3''] ! j)
               \<lparr>notif_status := ''sent'', sent_at := Some (demo_now j)\<rparr>) \<and>
        (second_fails j = Raises \<longrightarrow>
           fst (check_notifications Returns second_fails (always Returns) demo_now demo_queue) ! k =
             [demo_task 2 ''1'', demo_task 3 ''2'', demo_task 1 ''3''] ! j)"
    by blast
  have a: "fst (check_notifications Returns second_fails (always Returns) demo_now demo_queue) ! 0 =
     ([demo_task 2 ''1'', demo_task 3 ''2'', demo_task 1 ''3''] ! 2)
        \<lparr>notif_status := ''sent'', sent_at := Some (demo_now 2)\<rparr>"
    using c6[rule_format, of 2 0] q0 o2 l by simp
  have b: "fst (check_notifications Returns second_fails (always Returns) demo_now demo_queue) ! 2 =
     [demo_task 2 ''1'', demo_task 3 ''2'', demo_task 1 ''3''] ! 1"
    using c6[rule_format, of 1 2] q2 o1 l by simp
  from a have a': "fst (check_notifications Returns second_fails (always Returns) demo_now demo_queue) ! 0 =
     (demo_task 1 ''3'')\<lparr>notif_status := ''sent'', sent_at := Some (demo_now 2)\<rparr>" by simp
  from b have b': "fst (check_notifications Returns second_fails (always Returns) demo_now demo_queue) ! 2 =
     demo_task 3 ''2''" by simp
  from d demo_batch s a' b' show ?thesis by (intro conjI)
qed

text \<open>
  Claim C4 as stated fails when the status update raises after the send has returned:
  the exception is logged like a failed send and the task, though delivered, keeps the
  status \<^verbatim>\<open>pending\<close>.
\<close>

theorem dispatch_update_raises_counterexample:
  "check_notifications Returns (always Returns) (always Raises) demo_now [demo_task 1 ''3''] =
     ([demo_task 1 ''3''],
      [Db_select Notifications_queue, Bot_send 101 (Task_text ''hi''),
       Db_update Notifications_queue 1, Log_error]) \<and>
   notif_status (demo_task 1 ''3'') = ''pending''"
  by (simp add: check_notifications_def fetch_pending_def always_def demo_task_def)

end
